theory Spec2Isabelle
  imports Main "HOL-Library.Sublist" "HOL-Library.Multiset"
begin

section \<open>Doc_Scraper: the crawl engine of document_scraper\<close>

text \<open>
  A shallow embedding of the crawl engine in \<^verbatim>\<open>src/document_scraper\<close>:
  \<^verbatim>\<open>crawler.py\<close> (class Crawler), \<^verbatim>\<open>scraper.py\<close> (class DocumentationScraper)
  and the URL helpers of \<^verbatim>\<open>utils.py\<close>. Python strings are \<^typ>\<open>string\<close>, Python
  integers are \<^typ>\<open>int\<close>, sets are HOL sets, dictionaries are maps, a deque is a list
  with its left end first, and every \<^verbatim>\<open>raise\<close> is a value of a sum type.
\<close>

type_synonym url = string

subsection \<open>URL and content filters\<close>

text \<open>
  A compiled pattern (\<^verbatim>\<open>re.compile(p, re.IGNORECASE)\<close>) is used only through
  \<^verbatim>\<open>pattern.search(s)\<close>, whose truth value is the predicate below.
\<close>

type_synonym regex = "string \<Rightarrow> bool"

text \<open>
  \<^verbatim>\<open>_matches_url_filters\<close> (crawler.py 470-490, scraper.py 350-370; the two bodies are
  the same), with \<^verbatim>\<open>self.url_include_regex\<close> and \<^verbatim>\<open>self.url_exclude_regex\<close> passed in.
  A list is truthy when it is not empty; \<^verbatim>\<open>any(...)\<close> is \<^const>\<open>list_ex\<close>.
\<close>

definition matches_url_filters :: "regex list \<Rightarrow> regex list \<Rightarrow> url \<Rightarrow> bool" where
  "matches_url_filters url_include_regex url_exclude_regex u =
     (if url_include_regex \<noteq> [] \<and> \<not> list_ex (\<lambda>pattern. pattern u) url_include_regex then False
      else if list_ex (\<lambda>pattern. pattern u) url_exclude_regex then False
      else True)"

text \<open>\<^verbatim>\<open>_matches_content_filters\<close> (crawler.py 492-513, scraper.py 1061-1082).\<close>

definition matches_content_filters :: "regex list \<Rightarrow> regex list \<Rightarrow> string \<Rightarrow> bool" where
  "matches_content_filters content_include_regex content_exclude_regex html_content =
     (if content_include_regex \<noteq> [] \<and>
         \<not> list_ex (\<lambda>pattern. pattern html_content) content_include_regex then False
      else if list_ex (\<lambda>pattern. pattern html_content) content_exclude_regex then False
      else True)"

subsection \<open>Python strings\<close>

text \<open>
  A Python \<^verbatim>\<open>str\<close> is modelled by the list of its characters; the characters are
  bytes, and the letters are the ASCII letters: \<^verbatim>\<open>s.lower()\<close> maps \<^verbatim>\<open>A\<close> to \<^verbatim>\<open>Z\<close> to
  \<^verbatim>\<open>a\<close> to \<^verbatim>\<open>z\<close> and leaves every other character alone.
\<close>

definition lower_char :: "char \<Rightarrow> char" where
  "lower_char c =
     (if 65 \<le> (of_char c :: nat) \<and> (of_char c :: nat) \<le> 90
      then char_of ((of_char c :: nat) + 32) else c)"

definition lower :: "string \<Rightarrow> string" where
  "lower s = map lower_char s"

text \<open>\<^verbatim>\<open>pat in s\<close>: the string \<^verbatim>\<open>pat\<close> occurs in \<^verbatim>\<open>s\<close>.\<close>

fun contains :: "string \<Rightarrow> string \<Rightarrow> bool" where
  "contains pat [] = (pat = [])"
| "contains pat (c # cs) = (prefix pat (c # cs) \<or> contains pat cs)"

text \<open>\<^verbatim>\<open>s.split(sep)\<close> for a separator of one character; the result is never empty.\<close>

fun split_on :: "char \<Rightarrow> string \<Rightarrow> string list" where
  "split_on sep [] = [[]]"
| "split_on sep (c # cs) =
     (if c = sep then [] # split_on sep cs
      else (case split_on sep cs of [] \<Rightarrow> [[c]] | w # ws \<Rightarrow> (c # w) # ws))"

text \<open>
  \<^verbatim>\<open>s.partition(sep)\<close> and \<^verbatim>\<open>s.split(sep, 1)\<close>: the parts before and after the first
  \<^verbatim>\<open>sep\<close>.
\<close>

definition before :: "char \<Rightarrow> string \<Rightarrow> string" where
  "before sep s = takeWhile (\<lambda>c. c \<noteq> sep) s"

definition after :: "char \<Rightarrow> string \<Rightarrow> string" where
  "after sep s = drop 1 (dropWhile (\<lambda>c. c \<noteq> sep) s)"


text \<open>\<^verbatim>\<open>s.lstrip(chars)\<close>, \<^verbatim>\<open>s.rstrip(chars)\<close> and \<^verbatim>\<open>s.strip(chars)\<close>.\<close>

definition lstrip :: "string \<Rightarrow> string \<Rightarrow> string" where
  "lstrip chars s = dropWhile (\<lambda>c. c \<in> set chars) s"

definition rstrip :: "string \<Rightarrow> string \<Rightarrow> string" where
  "rstrip chars s = rev (dropWhile (\<lambda>c. c \<in> set chars) (rev s))"

definition strip :: "string \<Rightarrow> string \<Rightarrow> string" where
  "strip chars s = lstrip chars (rstrip chars s)"

subsection \<open>urllib.parse\<close>

text \<open>
  The functions of \<^verbatim>\<open>urllib.parse\<close> that the scraper calls, after CPython 3.11.
  \<^verbatim>\<open>urlsplit\<close> raises \<^verbatim>\<open>ValueError\<close> for a host in square brackets that is not a
  well-formed IP literal; the model has no such error and is meant for URLs
  without square brackets.
\<close>

record url_parts =
  scheme :: string
  netloc :: string
  path :: string
  params :: string
  query :: string
  fragment :: string

definition scheme_chars :: string where
  "scheme_chars = ''abcdefghijklmnopqrstuvwxyzABCDEFGHIJKLMNOPQRSTUVWXYZ0123456789+-.''"

definition ascii_alpha :: "char \<Rightarrow> bool" where
  "ascii_alpha c =
     ((65 \<le> (of_char c :: nat) \<and> (of_char c :: nat) \<le> 90) \<or>
      (97 \<le> (of_char c :: nat) \<and> (of_char c :: nat) \<le> 122))"

text \<open>
  The characters that \<^verbatim>\<open>urlsplit\<close> strips from the left of the URL (the C0 controls
  and the space) and the ones it removes everywhere (tab, carriage return, newline).
\<close>

definition c0_control_or_space :: "char \<Rightarrow> bool" where
  "c0_control_or_space c = ((of_char c :: nat) \<le> 32)"

definition unsafe_url_byte :: "char \<Rightarrow> bool" where
  "unsafe_url_byte c = (c = CHR 0x09 \<or> c = CHR 0x0D \<or> c = CHR 0x0A)"

definition has_scheme :: "string \<Rightarrow> bool" where
  "has_scheme u =
     (CHR '':'' \<in> set u \<and> before CHR '':'' u \<noteq> [] \<and> ascii_alpha (hd u) \<and>
      list_all (\<lambda>c. c \<in> set scheme_chars) (before CHR '':'' u))"

definition netloc_end :: "char \<Rightarrow> bool" where
  "netloc_end c = (c = CHR ''/'' \<or> c = CHR ''?'' \<or> c = CHR ''#'')"

text \<open>
  \<^verbatim>\<open>urlsplit(url, scheme)\<close>: the second argument is the scheme taken when the URL has
  none. The result reuses the record of \<^verbatim>\<open>urlparse\<close> with empty \<^verbatim>\<open>params\<close>.
\<close>

definition urlsplit :: "string \<Rightarrow> string \<Rightarrow> url_parts" where
  "urlsplit url0 scheme0 =
     (let u1 = filter (\<lambda>c. \<not> unsafe_url_byte c) (dropWhile c0_control_or_space url0);
          s1 = filter (\<lambda>c. \<not> unsafe_url_byte c)
                 (rev (dropWhile c0_control_or_space
                    (rev (dropWhile c0_control_or_space scheme0))));
          sch = (if has_scheme u1 then lower (before CHR '':'' u1) else s1);
          u2 = (if has_scheme u1 then after CHR '':'' u1 else u1);
          loc = (if take 2 u2 = ''//'' then takeWhile (\<lambda>c. \<not> netloc_end c) (drop 2 u2) else []);
          u3 = (if take 2 u2 = ''//'' then dropWhile (\<lambda>c. \<not> netloc_end c) (drop 2 u2) else u2);
          frag = (if CHR ''#'' \<in> set u3 then after CHR ''#'' u3 else []);
          u4 = (if CHR ''#'' \<in> set u3 then before CHR ''#'' u3 else u3);
          qry = (if CHR ''?'' \<in> set u4 then after CHR ''?'' u4 else []);
          u5 = (if CHR ''?'' \<in> set u4 then before CHR ''?'' u4 else u4)
      in \<lparr>scheme = sch, netloc = loc, path = u5, params = [], query = qry, fragment = frag\<rparr>)"

definition uses_params :: "string list" where
  "uses_params = [[], ''ftp'', ''hdl'', ''prospero'', ''http'', ''imap'', ''https'', ''shttp'',
     ''rtsp'', ''rtsps'', ''rtspu'', ''sip'', ''sips'', ''mms'', ''sftp'', ''tel'']"



text \<open>
  \<^verbatim>\<open>_splitparams\<close>: the parameters start at the first \<^verbatim>\<open>;\<close> of the last segment of
  the path.
\<close>

definition last_segment :: "string \<Rightarrow> string" where
  "last_segment p = rev (takeWhile (\<lambda>c. c \<noteq> CHR ''/'') (rev p))"

definition splitparams :: "string \<Rightarrow> string \<times> string" where
  "splitparams p =
     (if CHR '';'' \<in> set (last_segment p)
      then (take (length p - length (last_segment p)) p @ before CHR '';'' (last_segment p),
            after CHR '';'' (last_segment p))
      else (p, []))"

definition urlparse_with :: "string \<Rightarrow> string \<Rightarrow> url_parts" where
  "urlparse_with u scheme0 =
     (let r = urlsplit u scheme0 in
      if scheme r \<in> set uses_params \<and> CHR '';'' \<in> set (path r)
      then r\<lparr>path := fst (splitparams (path r)), params := snd (splitparams (path r))\<rparr>
      else r)"

definition urlparse :: "string \<Rightarrow> url_parts" where
  "urlparse u = urlparse_with u []"
















subsection \<open>URL helpers of utils.py\<close>









text \<open>
  \<^verbatim>\<open>get_file_extension\<close> (utils.py 415-435), with \<^verbatim>\<open>os.path\<close> of POSIX:
  \<^verbatim>\<open>basename\<close> is what follows the last slash, and \<^verbatim>\<open>splitext\<close> splits at the last dot
  of the name unless only dots stand before it.
\<close>

definition splitext_ext :: "string \<Rightarrow> string" where
  "splitext_ext name =
     (let tail = rev (takeWhile (\<lambda>c. c \<noteq> CHR ''.'') (rev name));
          stem = take (length name - length tail - 1) name
      in if CHR ''.'' \<in> set name \<and> list_ex (\<lambda>c. c \<noteq> CHR ''.'') stem
         then CHR ''.'' # tail else [])"

definition get_file_extension :: "url \<Rightarrow> string" where
  "get_file_extension u =
     (let ext = splitext_ext (last_segment (path (urlparse u)))
      in if ext \<noteq> [] then lower (drop 1 ext) else [])"

definition asset_extensions :: "string list" where
  "asset_extensions = [''jpg'', ''jpeg'', ''png'', ''gif'', ''svg'', ''webp'', ''ico'', ''bmp'',
     ''css'', ''scss'', ''less'', ''js'', ''mjs'', ''woff'', ''woff2'', ''ttf'', ''eot'', ''otf'',
     ''pdf'', ''zip'', ''xml'', ''json'']"

definition asset_patterns :: "string list" where
  "asset_patterns = [''/assets/'', ''/static/'', ''/images/'', ''/img/'', ''/css/'', ''/js/'',
     ''/fonts/'']"

text \<open>\<^verbatim>\<open>is_asset_url\<close> (utils.py 438-469).\<close>

definition is_asset_url :: "url \<Rightarrow> bool" where
  "is_asset_url u =
     (if get_file_extension u \<in> set asset_extensions then True
      else list_ex (\<lambda>pattern. contains pattern (lower u)) asset_patterns)"

subsection \<open>Categories of links\<close>











subsection \<open>URL handling of the scraper\<close>



text \<open>
  The configuration of a DocumentationScraper that its URL validation and its crawl
  read (scraper.py 90-155); \<^verbatim>\<open>s_base_url\<close> is \<^verbatim>\<open>base_url.rstrip('/')\<close>.
\<close>

record scraper_config =
  s_base_url :: url
  s_max_depth :: int
  s_max_pages :: "int option"
  s_concurrent_requests :: int
  include_assets :: bool
  url_include_regex :: "regex list"
  url_exclude_regex :: "regex list"

definition skip_urls :: "url list" where
  "skip_urls = [''https://ai.google.dev/gemini-api/docs/gemini-api/docs/models'',
     ''https://ai.google.dev/gemini-api/docs/experimental-models'']"

definition doc_prefixes :: "string list" where
  "doc_prefixes = [''docs'', ''guide'', ''documentation'', ''help'', ''reference'', ''api'',
     ''get-started'', ''guides'']"

definition exclusion_patterns :: "string list" where
  "exclusion_patterns = [''/auth/'', ''/login/'', ''/logout/'', ''/signup/'',
     ''/admin/'', ''/account/'', ''/billing/'', ''/pricing/'']"

text \<open>\<^verbatim>\<open>is_valid_doc_url\<close> (scraper.py 372-468).\<close>

definition is_valid_doc_url :: "scraper_config \<Rightarrow> url \<Rightarrow> bool" where
  "is_valid_doc_url C u =
     (let parsed = urlparse u;
          base_domain = netloc (urlparse (s_base_url C));
          url_domain = netloc parsed;
          base_path = strip ''/'' (path (urlparse (s_base_url C)));
          url_path = strip ''/'' (path parsed);
          base_path_parts = (if base_path \<noteq> [] then split_on CHR ''/'' base_path else []);
          url_path_parts = (if url_path \<noteq> [] then split_on CHR ''/'' url_path else []);
          domain_match =
            (url_domain = base_domain \<or>
             (suffix (''.'' @ base_domain) url_domain \<and> contains ''docs'' url_domain) \<or>
             (suffix (''.'' @ url_domain) base_domain \<and> contains ''docs'' base_domain));
          path_match =
            ((case (url_path_parts, base_path_parts) of
                (x # xs, y # ys) \<Rightarrow> x = y | _ \<Rightarrow> False) \<or>
             list_ex (\<lambda>p. contains (''/'' @ p @ ''/'') (lower u)) doc_prefixes \<or>
             (case url_path_parts of x # xs \<Rightarrow> lower x \<in> set doc_prefixes | [] \<Rightarrow> False))
      in if u = [] then False
         else if scheme parsed = [] \<and> netloc parsed = [] then False
         else if \<not> domain_match then False
         else if \<not> include_assets C \<and> is_asset_url u then False
         else if base_path_parts \<noteq> [] \<and> url_domain = base_domain \<and> \<not> path_match then False
         else if list_ex (\<lambda>pattern. contains pattern (lower u)) exclusion_patterns then False
         else if \<not> matches_url_filters (url_include_regex C) (url_exclude_regex C) u then False
         else if u \<in> set skip_urls then False
         else True)"

subsection \<open>Downloading with retries\<close>

text \<open>
  What \<^verbatim>\<open>requests\<close> gives back. A response carries its status code and body.
  \<^verbatim>\<open>session.get\<close> either returns a response or raises a
  \<^verbatim>\<open>RequestException\<close> that is not an \<^verbatim>\<open>HTTPError\<close> (a timeout, a connection error),
  described by its message. The server is a function of the URL and of the number of
  the attempt (from 0) inside one call of \<^verbatim>\<open>_download_with_retries\<close>.
\<close>

datatype response = Response (status_code: nat) (resp_text: string)

datatype get_result = Got response | Failed string

type_synonym session = "url \<Rightarrow> nat \<Rightarrow> get_result"

text \<open>
  The exceptions that leave \<^verbatim>\<open>_download_with_retries\<close>: the \<^verbatim>\<open>HTTPError\<close> of
  \<^verbatim>\<open>raise_for_status\<close>, a \<^verbatim>\<open>RequestException\<close> of \<^verbatim>\<open>session.get\<close>, and the
  \<^verbatim>\<open>RequestException("Failed to download {url} after {retries} attempts")\<close> raised
  after the loop.
\<close>

datatype exn = HTTPError response | RequestException string | DownloadFailed url int

text \<open>
  \<^verbatim>\<open>response.raise_for_status()\<close> of the requests library raises for the client and
  server error statuses, 400 to 599.
\<close>

definition raises_for_status :: "response \<Rightarrow> bool" where
  "raises_for_status r = (400 \<le> status_code r \<and> status_code r < 600)"

text \<open>
  \<^verbatim>\<open>_download_with_retries\<close> (crawler.py 515-574; scraper.py 787-835 is the same loop
  over \<^verbatim>\<open>self.max_retries\<close>). The loop \<^verbatim>\<open>for attempt in range(self.retries)\<close> is a
  recursion over the list of attempts. The first component of the result counts the
  calls of \<^verbatim>\<open>session.get\<close>; the sleeps change no value and are left out.
  A 429 response is followed by \<^verbatim>\<open>continue\<close>; any other error status raises inside the
  \<^verbatim>\<open>try\<close> and is swallowed unless \<^verbatim>\<open>attempt == self.retries - 1\<close>.
\<close>

definition one_more :: "nat \<times> 'a \<Rightarrow> nat \<times> 'a" where
  "one_more p = (Suc (fst p), snd p)"

fun attempts_loop :: "session \<Rightarrow> int \<Rightarrow> url \<Rightarrow> nat list \<Rightarrow> nat \<times> (exn + response)" where
  "attempts_loop get retries u [] = (0, Inl (DownloadFailed u retries))"
| "attempts_loop get retries u (attempt # rest) =
     (case get u attempt of
        Failed e \<Rightarrow>
          if int attempt = retries - 1 then (1, Inl (RequestException e))
          else one_more (attempts_loop get retries u rest)
      | Got r \<Rightarrow>
          if status_code r = 429 then one_more (attempts_loop get retries u rest)
          else if raises_for_status r then
            (if int attempt = retries - 1 then (1, Inl (HTTPError r))
             else one_more (attempts_loop get retries u rest))
          else (1, Inr r))"

definition download_with_retries :: "session \<Rightarrow> int \<Rightarrow> url \<Rightarrow> nat \<times> (exn + response)" where
  "download_with_retries get retries u = attempts_loop get retries u [0..<nat retries]"

subsection \<open>Crawler.download_url\<close>

text \<open>
  The dictionary of categorized links that \<^verbatim>\<open>extract_links\<close> of the Crawler returns:
  the keys \<^verbatim>\<open>'doc'\<close>, \<^verbatim>\<open>'aux'\<close>, \<^verbatim>\<open>'external'\<close> and \<^verbatim>\<open>'asset'\<close>, each with a list.
\<close>

record link_dict =
  doc :: "url list"
  aux :: "url list"
  external :: "url list"
  asset :: "url list"

text \<open>
  Parsing and link extraction go through BeautifulSoup; the model takes their result
  from the environment: both parsers raised (\<^verbatim>\<open>return html_content, None\<close>), or the
  links of the page.
\<close>

datatype extracted = ParseError | Extracted link_dict

text \<open>
  What \<^verbatim>\<open>download_url\<close> writes into \<^verbatim>\<open>self.failed_urls[url]\<close>:
  \<^verbatim>\<open>"404 Not Found"\<close>, \<^verbatim>\<open>f"HTTP Error: {e}"\<close> or \<^verbatim>\<open>str(e)\<close>.
\<close>

datatype failure = Msg404 | MsgHTTPError exn | MsgStr exn

text \<open>
  The environment of one call of \<^verbatim>\<open>download_url\<close>, with the fields of the crawler it
  reads. \<^verbatim>\<open>stop_is_set k\<close> answers the k-th test
  \<^verbatim>\<open>self.stop_event and self.stop_event.is_set()\<close> of the call. \<^verbatim>\<open>browser_page\<close> is the
  result of \<^verbatim>\<open>_download_with_browser\<close>, which catches every exception and returns
  \<^verbatim>\<open>(None, None)\<close> or the page source with its links. \<^verbatim>\<open>response_bool\<close> is the truth
  value of a response object, which the handler of \<^verbatim>\<open>HTTPError\<close> tests in
  \<^verbatim>\<open>e.response and e.response.status_code == 404\<close>; in the requests library
  \<^verbatim>\<open>Response.__bool__\<close> returns \<^verbatim>\<open>self.ok\<close>, that is \<^verbatim>\<open>requests_ok\<close> below.
\<close>

record dl_env =
  retries :: int
  browser_mode :: bool
  content_include_regex :: "regex list"
  content_exclude_regex :: "regex list"
  session_get :: session
  stop_is_set :: "nat \<Rightarrow> bool"
  browser_page :: "url \<Rightarrow> (string \<times> link_dict) option"
  response_bool :: "response \<Rightarrow> bool"
  extract_page :: "url \<Rightarrow> string \<Rightarrow> extracted"

definition requests_ok :: "response \<Rightarrow> bool" where
  "requests_ok r = (\<not> raises_for_status r)"

text \<open>
  The result of \<^verbatim>\<open>download_url\<close>: the pair it returns and what it stored in
  \<^verbatim>\<open>self.failed_urls\<close> under the URL, if anything.
\<close>

record dl_result =
  html_content :: "string option"
  links :: "link_dict option"
  failed :: "failure option"

definition returns :: "string option \<Rightarrow> link_dict option \<Rightarrow> dl_result" where
  "returns h l = \<lparr>html_content = h, links = l, failed = None\<rparr>"

definition fails :: "failure \<Rightarrow> dl_result" where
  "fails m = \<lparr>html_content = None, links = None, failed = Some m\<rparr>"

text \<open>
  The regular HTTP request of \<^verbatim>\<open>download_url\<close> (crawler.py 600-649), with the two
  handlers of the enclosing \<^verbatim>\<open>try\<close>.
\<close>

definition regular_request :: "dl_env \<Rightarrow> url \<Rightarrow> dl_result" where
  "regular_request E u =
     (case snd (download_with_retries (session_get E) (retries E) u) of
        Inl (HTTPError r) \<Rightarrow>
          if response_bool E r \<and> status_code r = 404 then fails Msg404
          else fails (MsgHTTPError (HTTPError r))
      | Inl e \<Rightarrow> fails (MsgStr e)
      | Inr response \<Rightarrow>
          if stop_is_set E 1 then returns None None
          else if \<not> matches_content_filters (content_include_regex E) (content_exclude_regex E)
                    (resp_text response) then returns None None
          else (case extract_page E u (resp_text response) of
                  ParseError \<Rightarrow> returns (Some (resp_text response)) None
                | Extracted l \<Rightarrow>
                    if stop_is_set E 2 then returns None None
                    else returns (Some (resp_text response)) (Some l)))"

text \<open>\<^verbatim>\<open>download_url\<close> (crawler.py 576-649).\<close>

definition download_url :: "dl_env \<Rightarrow> url \<Rightarrow> dl_result" where
  "download_url E u =
     (if stop_is_set E 0 then returns None None
      else if browser_mode E then
        (case browser_page E u of
           Some (h, l) \<Rightarrow> returns (Some h) (Some l)
         | None \<Rightarrow> regular_request E u)
      else regular_request E u)"

subsection \<open>DocumentationScraper.download_page\<close>

text \<open>
  The page that \<^verbatim>\<open>download_page\<close> returns is a triple of title, content and links:
  \<^verbatim>\<open>("", "", [])\<close> when there is nothing to keep, \<^verbatim>\<open>(None, None, None)\<close> for a 404.
  An \<^verbatim>\<open>HTTPError\<close> with another status is raised again and leaves the function.
  The scraper's loop of retries runs over \<^verbatim>\<open>self.max_retries\<close>.
\<close>

record page =
  title :: "string option"
  page_html :: "string option"
  page_links :: "url list option"

definition empty_page :: page where
  "empty_page = \<lparr>title = Some [], page_html = Some [], page_links = Some []\<rparr>"

definition none_page :: page where
  "none_page = \<lparr>title = None, page_html = None, page_links = None\<rparr>"

text \<open>
  The environment of one call of \<^verbatim>\<open>download_page\<close>. In browser mode the browser
  either returns a page (which may be \<^verbatim>\<open>("", "", [])\<close>) or fails with a
  \<^verbatim>\<open>TimeoutException\<close> or \<^verbatim>\<open>WebDriverException\<close>, after which the regular request
  is made. \<^verbatim>\<open>page_of\<close> is the title and the links taken from the parsed content, or
  \<^const>\<open>None\<close> when parsing or extraction raises.
\<close>

record page_env =
  max_retries :: int
  p_browser_mode :: bool
  p_content_include_regex :: "regex list"
  p_content_exclude_regex :: "regex list"
  p_session_get :: session
  p_stop_is_set :: "nat \<Rightarrow> bool"
  p_browser_page :: "url \<Rightarrow> page option"
  page_of :: "url \<Rightarrow> string \<Rightarrow> (string \<times> url list) option"

definition page_request :: "page_env \<Rightarrow> url \<Rightarrow> exn + page" where
  "page_request E u =
     (if p_stop_is_set E 1 then Inr empty_page
      else
        (case snd (download_with_retries (p_session_get E) (max_retries E) u) of
           Inl (HTTPError r) \<Rightarrow>
             if status_code r = 404 then Inr none_page else Inl (HTTPError r)
         | Inl e \<Rightarrow> Inr empty_page
         | Inr response \<Rightarrow>
             if p_stop_is_set E 2 then Inr empty_page
             else if \<not> matches_content_filters (p_content_include_regex E)
                       (p_content_exclude_regex E) (resp_text response) then Inr empty_page
             else if p_stop_is_set E 3 then Inr empty_page
             else (case page_of E u (resp_text response) of
                     None \<Rightarrow> Inr empty_page
                   | Some (t, ls) \<Rightarrow>
                       Inr \<lparr>title = Some t, page_html = Some (resp_text response),
                            page_links = Some ls\<rparr>)))"

text \<open>\<^verbatim>\<open>download_page\<close> (scraper.py 837-1059).\<close>

definition download_page :: "page_env \<Rightarrow> url \<Rightarrow> exn + page" where
  "download_page E u =
     (if p_stop_is_set E 0 then Inr empty_page
      else if p_browser_mode E then
        (case p_browser_page E u of
           Some p \<Rightarrow> Inr p
         | None \<Rightarrow> page_request E u)
      else page_request E u)"

subsection \<open>The order in which the futures of a batch complete\<close>

text \<open>
  \<^verbatim>\<open>concurrent.futures.as_completed\<close> yields the futures of a batch in the order in which
  they finish, which the program does not control. The scheduler is a list of picks:
  each pick names, modulo the number of futures still running, the one that finishes
  next; when the picks run out the rest finish in the order of submission. Every list
  of picks gives a permutation of the batch.
\<close>

function complete_order :: "nat list \<Rightarrow> 'a list \<Rightarrow> 'a list" where
  "complete_order picks [] = []"
| "complete_order [] (x # xs) = x # xs"
| "complete_order (p # picks) (x # xs) =
     (x # xs) ! (p mod length (x # xs)) #
       complete_order picks
         (take (p mod length (x # xs)) (x # xs) @ drop (Suc (p mod length (x # xs))) (x # xs))"
  by pat_completeness auto
termination
  by (relation "measure (\<lambda>(picks, xs). length xs)") auto

subsection \<open>Crawler.crawl\<close>

text \<open>
  The configuration of a Crawler that \<^verbatim>\<open>crawl\<close> reads (crawler.py 104-117):
  \<^verbatim>\<open>base_url\<close> is already stripped of trailing slashes, \<^verbatim>\<open>max_pages\<close> is
  \<^verbatim>\<open>None\<close> for unlimited.
\<close>

record crawl_config =
  base_url :: url
  max_depth :: int
  max_pages :: "int option"
  concurrent_requests :: int

text \<open>
  The state that \<^verbatim>\<open>crawl\<close> works on: the fields of the object (crawler.py 119-131) and
  the local variables \<^verbatim>\<open>doc_queue\<close> and \<^verbatim>\<open>stopping\<close>. Three more fields are kept for
  stating properties and are read by no operation of the model but the ones that
  maintain them: \<^verbatim>\<open>finished\<close> (the while loop has been left), \<^verbatim>\<open>fetched\<close> (the
  frontier entries handed to \<^verbatim>\<open>download_url\<close>, in the order of submission) and
  \<^verbatim>\<open>polls\<close> (how often \<^verbatim>\<open>crawl\<close> has tested the stop event).
\<close>

record crawl_state =
  visited :: "url set"
  queued :: "url set"
  pages_downloaded :: int
  failed_urls :: "url \<rightharpoonup> failure"
  doc_links :: "url set"
  aux_links :: "url set"
  external_links :: "url set"
  asset_links :: "url set"
  doc_queue :: "(url \<times> int) list"
  stopping :: bool
  finished :: bool
  fetched :: "(url \<times> int) list"
  polls :: nat

text \<open>
  The environment of a run: \<^verbatim>\<open>download k u\<close> is what the k-th call of
  \<^verbatim>\<open>download_url\<close> of the run (counted from 0) does for the URL \<^verbatim>\<open>u\<close>;
  \<^verbatim>\<open>stop_event k\<close> answers the k-th test of the stop event made by \<^verbatim>\<open>crawl\<close> itself;
  \<^verbatim>\<open>completion k\<close> are the scheduler's picks for the batch submitted when k downloads
  had been submitted before; \<^verbatim>\<open>callback_raises\<close> and \<^verbatim>\<open>progress_raises\<close> tell whether the
  caller's \<^verbatim>\<open>callback\<close> and \<^verbatim>\<open>progress_callback\<close> raise an exception for a page
  (False when there is no such callback).
\<close>

record crawl_env =
  download :: "nat \<Rightarrow> url \<Rightarrow> dl_result"
  stop_event :: "nat \<Rightarrow> bool"
  completion :: "nat \<Rightarrow> nat list"
  callback_raises :: "url \<Rightarrow> bool"
  progress_raises :: "url \<Rightarrow> bool"

text \<open>
  The reset at the start of \<^verbatim>\<open>crawl\<close> and the seeding of the queue (crawler.py
  799-819).
\<close>

definition crawl_start :: "crawl_config \<Rightarrow> crawl_state \<Rightarrow> crawl_state" where
  "crawl_start C s =
     s\<lparr>pages_downloaded := 0, visited := {}, queued := {base_url C},
       failed_urls := Map.empty, doc_links := {}, aux_links := {},
       external_links := {}, asset_links := {},
       doc_queue := [(base_url C, 0)], stopping := False,
       finished := False, fetched := [], polls := 0\<rparr>"

text \<open>
  The loop over \<^verbatim>\<open>links.get('doc', [])\<close> that appends new documentation links
  (crawler.py 895-900); \<^verbatim>\<open>depth\<close> is the depth of the page the links come from.
\<close>

fun enqueue_links :: "int \<Rightarrow> url list \<Rightarrow> crawl_state \<Rightarrow> crawl_state" where
  "enqueue_links depth [] s = s"
| "enqueue_links depth (doc_link # rest) s =
     enqueue_links depth rest
       (if doc_link \<notin> visited s \<and> doc_link \<notin> queued s \<and>
           \<not> list_ex (\<lambda>item. fst item = doc_link) (doc_queue s)
        then s\<lparr>doc_queue := doc_queue s @ [(doc_link, depth + 1)],
               queued := insert doc_link (queued s)\<rparr>
        else s)"

text \<open>
  The body of the loop over the completed futures (crawler.py 849-904) for one
  future: \<^verbatim>\<open>(u, depth)\<close> is the frontier entry and \<^verbatim>\<open>r\<close> what \<^verbatim>\<open>download_url\<close> did.
  The entry of \<^verbatim>\<open>failed_urls\<close> that the download wrote is stored here.
  An exception of a callback is caught by the \<^verbatim>\<open>except\<close> of the body, which skips the
  statements after the call.
\<close>

definition process_result ::
  "crawl_env \<Rightarrow> crawl_config \<Rightarrow> url \<times> int \<Rightarrow> dl_result \<Rightarrow> crawl_state \<Rightarrow> crawl_state" where
  "process_result E C item r s =
     (let u = fst item; depth = snd item;
          s1 = s\<lparr>visited := insert u (visited s),
                 failed_urls := (case failed r of None \<Rightarrow> failed_urls s
                                 | Some m \<Rightarrow> (failed_urls s)(u \<mapsto> m))\<rparr>
      in case (html_content r, links r) of
           (Some h, Some l) \<Rightarrow>
             if h = [] \<or> callback_raises E u then s1
             else
               let s2 = s1\<lparr>pages_downloaded := pages_downloaded s1 + 1\<rparr> in
               if progress_raises E u then s2
               else
                 let s3 = s2\<lparr>doc_links := doc_links s2 \<union> set (doc l),
                              aux_links := aux_links s2 \<union> set (aux l),
                              external_links := external_links s2 \<union> set (external l),
                              asset_links := asset_links s2 \<union> set (asset l)\<rparr>
                 in if depth < max_depth C then enqueue_links depth (doc l) s3 else s3
         | _ \<Rightarrow> s1)"

text \<open>
  The futures of a batch with their results, in the order of submission: the i-th
  entry of the batch is the (k + i)-th download of the run.
\<close>

definition submit :: "(nat \<Rightarrow> url \<Rightarrow> 'r) \<Rightarrow> nat \<Rightarrow> (url \<times> int) list \<Rightarrow> ((url \<times> int) \<times> 'r) list" where
  "submit dl k batch = map (\<lambda>(i, item). (item, dl (k + i) (fst item))) (enumerate 0 batch)"

definition loop_guard :: "crawl_config \<Rightarrow> crawl_state \<Rightarrow> bool" where
  "loop_guard C s =
     (doc_queue s \<noteq> [] \<and>
      (case max_pages C of None \<Rightarrow> True | Some m \<Rightarrow> pages_downloaded s < m) \<and>
      \<not> stopping s)"

text \<open>
  One pass through the while loop of phase 1 (crawler.py 823-908), the test of the
  loop included. Once the loop has been left the state no longer changes. The delay
  between batches changes no value. The batch takes
  \<^verbatim>\<open>min(self.concurrent_requests, len(doc_queue))\<close> entries from the left of the queue.
\<close>

definition crawl_iteration :: "crawl_env \<Rightarrow> crawl_config \<Rightarrow> crawl_state \<Rightarrow> crawl_state" where
  "crawl_iteration E C s =
     (if finished s then s
      else if \<not> loop_guard C s then s\<lparr>finished := True\<rparr>
      else if stop_event E (polls s) then
        s\<lparr>stopping := True, finished := True, polls := Suc (polls s)\<rparr>
      else
        let n = nat (min (concurrent_requests C) (int (length (doc_queue s))));
            batch = take n (doc_queue s);
            s1 = s\<lparr>doc_queue := drop n (doc_queue s), polls := Suc (polls s)\<rparr>
        in if batch = [] then s1\<lparr>finished := True\<rparr>
           else
             fold (\<lambda>(item, r). process_result E C item r)
               (complete_order (completion E (length (fetched s)))
                  (submit (download E) (length (fetched s)) batch))
               (s1\<lparr>fetched := fetched s @ batch\<rparr>))"

text \<open>
  The state of \<^verbatim>\<open>crawl\<close> after the reset and \<^verbatim>\<open>n\<close> passes through the loop. Phase 2
  (crawler.py 910-955) sets \<^verbatim>\<open>process_aux = False\<close> and changes nothing;
  \<^verbatim>\<open>crawl\<close> returns \<^verbatim>\<open>pages_downloaded\<close> and the four link sets of the state in which
  the loop was left.
\<close>

definition crawl_run :: "crawl_env \<Rightarrow> crawl_config \<Rightarrow> crawl_state \<Rightarrow> nat \<Rightarrow> crawl_state" where
  "crawl_run E C s n = (crawl_iteration E C ^^ n) (crawl_start C s)"

subsection \<open>DocumentationScraper.crawl\<close>

text \<open>
  What one call of \<^verbatim>\<open>download_page\<close> does, as \<^verbatim>\<open>crawl\<close> sees it: the page it returns or
  the exception it raises, the asset URLs that \<^verbatim>\<open>extract_assets\<close> added to
  \<^verbatim>\<open>self.queued\<close>, and the number of assets that \<^verbatim>\<open>download_assets\<close> counted into
  \<^verbatim>\<open>self.assets_downloaded\<close>.
\<close>

record page_outcome =
  outcome :: "exn + page"
  asset_urls :: "url list"
  assets_saved :: nat

text \<open>
  The exceptions that leave the loop over the completed futures: the local variable
  \<^verbatim>\<open>links\<close> is read in \<^verbatim>\<open>for link in links\<close> outside the \<^verbatim>\<open>try\<close>, where it may be
  unbound (no page has been unpacked yet) or \<^verbatim>\<open>None\<close> (the page of a 404).
\<close>

datatype py_error = UnboundLocalError | TypeError

datatype run_status = Running | Finished | Raised py_error

text \<open>
  The state that the scraper's \<^verbatim>\<open>crawl\<close> works on: the fields of the object (scraper.py
  131-138), the local variables \<^verbatim>\<open>queue\<close>, \<^verbatim>\<open>stopping\<close> and \<^verbatim>\<open>links\<close>
  (\<^const>\<open>None\<close> while unbound), and for stating properties the status of the loop, the
  frontier entries handed to \<^verbatim>\<open>download_page\<close> and the number of tests of the stop
  event.
\<close>

record scraper_state =
  s_visited :: "url set"
  s_queued :: "url set"
  s_pages_downloaded :: int
  s_assets_downloaded :: int
  s_failed_urls :: "url \<rightharpoonup> failure"
  queue :: "(url \<times> int) list"
  s_stopping :: bool
  links_var :: "url list option option"
  status :: run_status
  s_fetched :: "(url \<times> int) list"
  s_polls :: nat

text \<open>
  The environment of a run. \<^verbatim>\<open>save_content\<close> is the result of
  \<^verbatim>\<open>self.save_content(url, title, html_content)\<close>, which catches its own exceptions.
  (In the source every path of \<^verbatim>\<open>save_content\<close> returns \<^verbatim>\<open>False\<close>: it writes the
  undefined name \<^verbatim>\<open>yaml_frontmatter\<close>, and the \<^verbatim>\<open>NameError\<close> is caught. The environment
  that answers \<^verbatim>\<open>False\<close> everywhere is that behaviour.)
  An exception of \<^verbatim>\<open>progress_callback\<close> is caught after the counter has been
  increased and changes nothing.
\<close>

record scraper_env =
  page_download :: "nat \<Rightarrow> url \<Rightarrow> page_outcome"
  s_stop_event :: "nat \<Rightarrow> bool"
  s_completion :: "nat \<Rightarrow> nat list"
  save_content :: "url \<Rightarrow> bool"

text \<open>
  The start of \<^verbatim>\<open>crawl(start_urls)\<close> (scraper.py 1281-1322); \<^verbatim>\<open>start_urls\<close> is the
  empty list when the argument is \<^verbatim>\<open>None\<close>. \<^verbatim>\<open>self.queued\<close> is updated, not cleared.
\<close>

definition s_crawl_start :: "scraper_config \<Rightarrow> url list \<Rightarrow> scraper_state \<Rightarrow> scraper_state" where
  "s_crawl_start C start_urls s =
     (let initial_urls = (if start_urls \<noteq> [] then start_urls else [s_base_url C]);
          valid_initial_urls = filter (is_valid_doc_url C) initial_urls
      in s\<lparr>queue := map (\<lambda>u. (u, 0)) valid_initial_urls,
           s_queued := s_queued s \<union> set valid_initial_urls,
           s_pages_downloaded := 0, s_assets_downloaded := 0,
           s_visited := {}, s_failed_urls := Map.empty,
           s_stopping := False, links_var := None, status := Running,
           s_fetched := [], s_polls := 0\<rparr>)"

text \<open>The loop \<^verbatim>\<open>for link in links\<close> (scraper.py 1412-1440).\<close>

fun s_enqueue_links :: "scraper_config \<Rightarrow> int \<Rightarrow> url list \<Rightarrow> scraper_state \<Rightarrow> scraper_state" where
  "s_enqueue_links C depth [] s = s"
| "s_enqueue_links C depth (link # rest) s =
     s_enqueue_links C depth rest
       (if link \<notin> s_visited s \<and> link \<notin> s_queued s \<and> is_valid_doc_url C link \<and>
           \<not> list_ex (\<lambda>item. fst item = link) (queue s)
        then s\<lparr>queue := queue s @ [(link, depth + 1)],
               s_queued := insert link (s_queued s)\<rparr>
        else s)"

text \<open>
  What the workers of the downloads did to the shared fields (scraper.py 762-783,
  1104).
\<close>

fun land_effects :: "page_outcome list \<Rightarrow> scraper_state \<Rightarrow> scraper_state" where
  "land_effects [] s = s"
| "land_effects (r # rs) s =
     land_effects rs
       (s\<lparr>s_queued := s_queued s \<union> set (asset_urls r),
          s_assets_downloaded := s_assets_downloaded s + int (assets_saved r)\<rparr>)"

definition truthy :: "string option \<Rightarrow> bool" where
  "truthy x = (case x of None \<Rightarrow> False | Some v \<Rightarrow> v \<noteq> [])"

text \<open>
  The body of the loop over the completed futures after its test of the stop event
  (scraper.py 1384-1444), for the frontier entry \<^verbatim>\<open>item\<close> and the outcome \<^verbatim>\<open>r\<close> of its
  download. When \<^verbatim>\<open>future.result()\<close> raises, the tuple is not unpacked and \<^verbatim>\<open>links\<close>
  keeps its value.
\<close>

definition s_process_result ::
  "scraper_env \<Rightarrow> scraper_config \<Rightarrow> url \<times> int \<Rightarrow> page_outcome \<Rightarrow> scraper_state \<Rightarrow> scraper_state" where
  "s_process_result E C item r s =
     (let u = fst item; depth = snd item;
          s1 = s\<lparr>s_visited := insert u (s_visited s)\<rparr>;
          s2 = (case outcome r of
                  Inl e \<Rightarrow> s1
                | Inr p \<Rightarrow>
                    let s' = s1\<lparr>links_var := Some (page_links p)\<rparr> in
                    if truthy (title p) \<and> truthy (page_html p) \<and> save_content E u
                    then s'\<lparr>s_pages_downloaded := s_pages_downloaded s' + 1\<rparr>
                    else s')
      in if depth < s_max_depth C then
           (case links_var s2 of
              None \<Rightarrow> s2\<lparr>status := Raised UnboundLocalError\<rparr>
            | Some None \<Rightarrow> s2\<lparr>status := Raised TypeError\<rparr>
            | Some (Some ls) \<Rightarrow> s_enqueue_links C depth ls s2)
         else s2)"

text \<open>
  The loop over the completed futures (scraper.py 1363-1444). Before each future the
  stop event is tested; when it is set the loop is left and the queue is cleared.
  An exception leaves the loop as well. In both cases the downloads still running are
  finished before the executor is closed, so what they did to the shared fields is
  added.
\<close>

fun s_process_batch ::
  "scraper_env \<Rightarrow> scraper_config \<Rightarrow> ((url \<times> int) \<times> page_outcome) list \<Rightarrow> scraper_state \<Rightarrow> scraper_state" where
  "s_process_batch E C [] s = s"
| "s_process_batch E C (f # rest) s =
     (let s0 = land_effects [snd f] s in
      if s_stop_event E (s_polls s0) then
        land_effects (map snd rest)
          (s0\<lparr>s_stopping := True, queue := [], s_polls := Suc (s_polls s0)\<rparr>)
      else
        let s1 = s_process_result E C (fst f) (snd f) (s0\<lparr>s_polls := Suc (s_polls s0)\<rparr>) in
        if status s1 \<noteq> Running then land_effects (map snd rest) s1
        else s_process_batch E C rest s1)"

definition s_loop_guard :: "scraper_config \<Rightarrow> scraper_state \<Rightarrow> bool" where
  "s_loop_guard C s =
     (queue s \<noteq> [] \<and>
      (case s_max_pages C of None \<Rightarrow> True | Some m \<Rightarrow> s_pages_downloaded s < m) \<and>
      \<not> s_stopping s)"

text \<open>
  One pass through the while loop (scraper.py 1327-1468), the test of the loop
  included. The stop event is tested at the top of the pass, before each completed
  future, and after the batch.
\<close>

definition s_crawl_iteration :: "scraper_env \<Rightarrow> scraper_config \<Rightarrow> scraper_state \<Rightarrow> scraper_state" where
  "s_crawl_iteration E C s =
     (if status s \<noteq> Running then s
      else if \<not> s_loop_guard C s then s\<lparr>status := Finished\<rparr>
      else if s_stop_event E (s_polls s) then
        s\<lparr>s_stopping := True, queue := [], s_polls := Suc (s_polls s), status := Finished\<rparr>
      else
        let n = nat (min (s_concurrent_requests C) (int (length (queue s))));
            batch = take n (queue s);
            s1 = s\<lparr>queue := drop n (queue s), s_polls := Suc (s_polls s)\<rparr>
        in if batch = [] then s1\<lparr>status := Finished\<rparr>
           else
             let s2 = s_process_batch E C
                        (complete_order (s_completion E (length (s_fetched s)))
                           (submit (page_download E) (length (s_fetched s)) batch))
                        (s1\<lparr>s_fetched := s_fetched s @ batch\<rparr>)
             in if status s2 \<noteq> Running then s2
                else if s_stop_event E (s_polls s2) then
                  s2\<lparr>s_stopping := True, queue := [], s_polls := Suc (s_polls s2),
                     status := Finished\<rparr>
                else s2\<lparr>s_polls := Suc (s_polls s2)\<rparr>)"

text \<open>
  The state of \<^verbatim>\<open>crawl(start_urls)\<close> after the start and \<^verbatim>\<open>n\<close> passes through the loop.
  \<^verbatim>\<open>crawl\<close> returns \<^verbatim>\<open>pages_downloaded\<close> and \<^verbatim>\<open>assets_downloaded\<close> of the state in
  which the loop was left, or raises.
\<close>

definition s_crawl_run ::
  "scraper_env \<Rightarrow> scraper_config \<Rightarrow> url list \<Rightarrow> scraper_state \<Rightarrow> nat \<Rightarrow> scraper_state" where
  "s_crawl_run E C start_urls s n = (s_crawl_iteration E C ^^ n) (s_crawl_start C start_urls s)"

section \<open>Invariants and example runs\<close>

subsection \<open>Invariants of the two crawl loops\<close>

text \<open>
  The invariant of the loop of \<^verbatim>\<open>Crawler.crawl\<close>: the URLs handed to \<^verbatim>\<open>download_url\<close> so
  far and the URLs waiting in the queue are pairwise different, all of them are in
  \<^verbatim>\<open>queued\<close>, only downloaded URLs are in \<^verbatim>\<open>visited\<close>, and only visited URLs have an
  entry in \<^verbatim>\<open>failed_urls\<close>. Between two passes of the loop every URL handed to the
  downloader has been marked as visited. The depths of all frontier entries are
  bounded.
\<close>

definition frontier_inv :: "crawl_state \<Rightarrow> bool" where
  "frontier_inv s =
     (distinct (map fst (fetched s @ doc_queue s)) \<and>
      fst ` set (fetched s @ doc_queue s) \<subseteq> queued s \<and>
      visited s \<subseteq> fst ` set (fetched s) \<and>
      dom (failed_urls s) \<subseteq> visited s)"

definition batch_inv :: "crawl_state \<Rightarrow> bool" where
  "batch_inv s = (frontier_inv s \<and> visited s = fst ` set (fetched s))"


text \<open>
  The same for the scraper. Between two passes every URL handed to the downloader has
  been marked as visited unless the stop event was seen or the loop raised.
\<close>

definition s_frontier_inv :: "scraper_state \<Rightarrow> bool" where
  "s_frontier_inv s =
     (distinct (map fst (s_fetched s @ queue s)) \<and>
      fst ` set (s_fetched s @ queue s) \<subseteq> s_queued s \<and>
      s_visited s \<subseteq> fst ` set (s_fetched s))"


definition s_batch_inv :: "scraper_state \<Rightarrow> bool" where
  "s_batch_inv s =
     (s_frontier_inv s \<and>
      (s_stopping s \<or> (\<exists>e. status s = Raised e) \<or> s_visited s = fst ` set (s_fetched s)))"

subsection \<open>Example servers, sites and crawlers\<close>

text \<open>A server that answers every request with 404, and downloaders with no extras.\<close>

definition always_404 :: session where
  "always_404 = (\<lambda>u attempt. Got (Response 404 ''gone''))"

definition plain_env :: "session \<Rightarrow> int \<Rightarrow> dl_env" where
  "plain_env get n =
     \<lparr>retries = n, browser_mode = False, content_include_regex = [],
      content_exclude_regex = [], session_get = get, stop_is_set = (\<lambda>k. False),
      browser_page = (\<lambda>u. None), response_bool = requests_ok,
      extract_page = (\<lambda>u h. ParseError)\<rparr>"

definition plain_page_env :: "session \<Rightarrow> int \<Rightarrow> page_env" where
  "plain_page_env get n =
     \<lparr>max_retries = n, p_browser_mode = False, p_content_include_regex = [],
      p_content_exclude_regex = [], p_session_get = get, p_stop_is_set = (\<lambda>k. False),
      p_browser_page = (\<lambda>u. None), page_of = (\<lambda>u h. None)\<rparr>"

text \<open>
  A Crawler on \<^verbatim>\<open>https://x.com/docs\<close> with \<^verbatim>\<open>max_pages = 2\<close>, on a site where every
  page downloads and shows the same three documentation links; nobody sets the stop
  event, the futures complete in the order of submission and no callback raises.
\<close>

definition three_links :: dl_result where
  "three_links =
     returns (Some ''<html>'')
       (Some \<lparr>doc = [''https://x.com/docs/a'', ''https://x.com/docs/b'', ''https://x.com/docs/c''],
              aux = [], external = [], asset = []\<rparr>)"

definition steady :: crawl_env where
  "steady = \<lparr>download = (\<lambda>k u. three_links), stop_event = (\<lambda>k. False),
     completion = (\<lambda>k. []), callback_raises = (\<lambda>u. False),
     progress_raises = (\<lambda>u. False)\<rparr>"

definition capped :: crawl_config where
  "capped = \<lparr>base_url = ''https://x.com/docs'', max_depth = 5, max_pages = Some 2,
     concurrent_requests = 5\<rparr>"

text \<open>The state of a Crawler after \<^verbatim>\<open>__init__\<close>.\<close>

definition new_crawler :: crawl_state where
  "new_crawler = \<lparr>visited = {}, queued = {}, pages_downloaded = 0, failed_urls = Map.empty,
     doc_links = {}, aux_links = {}, external_links = {}, asset_links = {},
     doc_queue = [], stopping = False, finished = False, fetched = [], polls = 0\<rparr>"

text \<open>
  A scraper on \<^verbatim>\<open>https://x.com/docs\<close> with the defaults of the command line, on a site
  whose start page links to \<^verbatim>\<open>https://x.com/docs/b\<close>, a page without links.
  \<^verbatim>\<open>quiet\<close> is the environment in which the stop event is never set, and
  \<^verbatim>\<open>stop_at k\<close> the one in which the k-th test of the stop event finds it set.
\<close>

definition docs_scraper :: scraper_config where
  "docs_scraper = \<lparr>s_base_url = ''https://x.com/docs'', s_max_depth = 3, s_max_pages = None,
     s_concurrent_requests = 5, include_assets = False, url_include_regex = [],
     url_exclude_regex = []\<rparr>"

definition new_scraper :: scraper_state where
  "new_scraper = \<lparr>s_visited = {}, s_queued = {}, s_pages_downloaded = 0,
     s_assets_downloaded = 0, s_failed_urls = Map.empty, queue = [], s_stopping = False,
     links_var = None, status = Running, s_fetched = [], s_polls = 0\<rparr>"

definition docs_site :: "url \<Rightarrow> page" where
  "docs_site u =
     (if u = ''https://x.com/docs''
      then \<lparr>title = Some ''Docs'', page_html = Some ''<html>'',
            page_links = Some [''https://x.com/docs/b'']\<rparr>
      else \<lparr>title = Some ''B'', page_html = Some ''<html>'', page_links = Some []\<rparr>)"

definition stop_at :: "nat \<Rightarrow> (url \<Rightarrow> page) \<Rightarrow> scraper_env" where
  "stop_at k pages =
     \<lparr>page_download = (\<lambda>i u. \<lparr>outcome = Inr (pages u), asset_urls = [], assets_saved = 0\<rparr>),
      s_stop_event = (\<lambda>i. i = k), s_completion = (\<lambda>i. []), save_content = (\<lambda>u. False)\<rparr>"

definition quiet :: "(url \<Rightarrow> page) \<Rightarrow> scraper_env" where
  "quiet pages =
     \<lparr>page_download = (\<lambda>i u. \<lparr>outcome = Inr (pages u), asset_urls = [], assets_saved = 0\<rparr>),
      s_stop_event = (\<lambda>i. False), s_completion = (\<lambda>i. []), save_content = (\<lambda>u. False)\<rparr>"

section \<open>Properties\<close>

subsection \<open>URL filtering\<close>

text \<open>
  Claim C9. URL filtering: when at least one include pattern is configured, a URL is
  allowed only if it matches one of them; a URL that matches any exclude pattern is
  rejected whatever the include patterns say; and with no include pattern the include
  stage lets every URL through, so that the answer is decided by the exclude patterns
  alone.
\<close>

theorem url_filter_include_exclude:
  "(inc \<noteq> [] \<longrightarrow> matches_url_filters inc exc u \<longrightarrow> (\<exists>p \<in> set inc. p u)) \<and>
   ((\<exists>p \<in> set exc. p u) \<longrightarrow> \<not> matches_url_filters inc exc u) \<and>
   (inc = [] \<longrightarrow> matches_url_filters inc exc u = (\<not> (\<exists>p \<in> set exc. p u)))"
  by (auto simp: matches_url_filters_def list_ex_iff)

theorem url_filter_include_exclude_witness:
  "matches_url_filters [prefix ''http''] [suffix ''.zip''] ''http://a/b'' \<and>
   \<not> matches_url_filters [prefix ''http''] [suffix ''.zip''] ''http://a/b.zip'' \<and>
   \<not> matches_url_filters [prefix ''http''] [suffix ''.zip''] ''ftp://a/b'' \<and>
   matches_url_filters [] [suffix ''.zip''] ''ftp://a/b''"
proof -
  have a: "matches_url_filters [prefix ''http''] [suffix ''.zip''] ''http://a/b''"
    by (simp add: matches_url_filters_def suffix_def)
  have c: "\<not> prefix ''http'' ''ftp://a/b''" by simp
  have d: "\<not> (\<exists>p \<in> set [suffix ''.zip'']. p ''ftp://a/b'')"
    by (simp add: suffix_def)
  from url_filter_include_exclude [of "[prefix ''http'']" "[suffix ''.zip'']" "''http://a/b.zip''"]
  have b: "\<not> matches_url_filters [prefix ''http''] [suffix ''.zip''] ''http://a/b.zip''"
    by (simp add: suffix_def)
  from url_filter_include_exclude [of "[prefix ''http'']" "[suffix ''.zip'']" "''ftp://a/b''"] c
  have e: "\<not> matches_url_filters [prefix ''http''] [suffix ''.zip''] ''ftp://a/b''"
    by auto
  from url_filter_include_exclude [of "[]" "[suffix ''.zip'']" "''ftp://a/b''"] d
  have f: "matches_url_filters [] [suffix ''.zip''] ''ftp://a/b''"
    by simp
  from a b e f show ?thesis by simp
qed

subsection \<open>Retries and HTTP 404\<close>

text \<open>
  When every attempt is answered by an error status other than 429 (404 is one), the
  loop swallows the \<^verbatim>\<open>HTTPError\<close> of every attempt but the last: it makes as many
  requests as \<^verbatim>\<open>retries\<close> says and raises the error of the last response.
\<close>

lemma attempts_loop_all_errors:
  assumes err: "\<And>a. \<exists>r. get u a = Got r \<and> raises_for_status r \<and> status_code r \<noteq> 429"
    and n: "int n = rt"
  shows "k < n \<Longrightarrow> fst (attempts_loop get rt u [k..<n]) = n - k \<and>
         (\<exists>r. get u (n - 1) = Got r \<and> snd (attempts_loop get rt u [k..<n]) = Inl (HTTPError r))"
proof (induction "n - k" arbitrary: k)
  case 0
  then show ?case by simp
next
  case (Suc d)
  from err obtain r where r: "get u k = Got r" "raises_for_status r" "status_code r \<noteq> 429"
    by blast
  have up: "[k..<n] = k # [Suc k..<n]"
    using Suc.prems by (simp add: upt_conv_Cons)
  show ?case
  proof (cases "Suc k < n")
    case True
    with Suc have IH: "fst (attempts_loop get rt u [Suc k..<n]) = n - Suc k \<and>
         (\<exists>r. get u (n - 1) = Got r \<and>
              snd (attempts_loop get rt u [Suc k..<n]) = Inl (HTTPError r))"
      by simp
    from True n have "int k \<noteq> rt - 1" by auto
    with r IH up True show ?thesis by (auto simp: one_more_def)
  next
    case False
    with Suc.prems have kn: "n = Suc k" by simp
    then have "int k = rt - 1" using n by auto
    with r up kn show ?thesis by auto
  qed
qed

lemma download_with_retries_all_errors:
  assumes err: "\<And>a. \<exists>r. get u a = Got r \<and> raises_for_status r \<and> status_code r \<noteq> 429"
    and n: "1 \<le> rt"
  shows "fst (download_with_retries get rt u) = nat rt \<and>
         (\<exists>r. get u (nat rt - 1) = Got r \<and>
              snd (download_with_retries get rt u) = Inl (HTTPError r))"
proof -
  from n have "int (nat rt) = rt" and "0 < nat rt" by simp_all
  with attempts_loop_all_errors [where get = get and u = u and n = "nat rt" and rt = rt
      and k = 0, OF err]
  show ?thesis by (simp add: download_with_retries_def)
qed

text \<open>
  Claim C3, as the code has it. A 404 is not terminal inside the loop of retries: it
  is retried like every other error status. With \<^verbatim>\<open>retries = n\<close>, \<open>n \<ge> 1\<close>, and a
  server that answers every attempt with 404, the downloader makes exactly \<open>n\<close>
  requests. After the last one \<^verbatim>\<open>Crawler.download_url\<close> returns \<^verbatim>\<open>(None, None)\<close> and
  has an entry for the URL in \<^verbatim>\<open>failed_urls\<close>, and the scraper's \<^verbatim>\<open>download_page\<close>
  returns \<^verbatim>\<open>(None, None, None)\<close>, whenever the regular request is the one made (no stop
  was requested, and the browser gave no page).
\<close>

theorem not_found_is_retried_then_recorded:
  assumes nf: "\<forall>a. \<exists>b. get u a = Got (Response 404 b)"
    and n: "1 \<le> n"
  shows "fst (download_with_retries get n u) = nat n \<and>
    (session_get E = get \<and> retries E = n \<and> \<not> stop_is_set E 0 \<and>
       (browser_mode E \<longrightarrow> browser_page E u = None) \<longrightarrow>
         html_content (download_url E u) = None \<and> links (download_url E u) = None \<and>
         failed (download_url E u) \<noteq> None) \<and>
    (p_session_get P = get \<and> max_retries P = n \<and> \<not> p_stop_is_set P 0 \<and>
       \<not> p_stop_is_set P 1 \<and> (p_browser_mode P \<longrightarrow> p_browser_page P u = None) \<longrightarrow>
         download_page P u = Inr none_page)"
proof -
  have err: "\<And>a. \<exists>r. get u a = Got r \<and> raises_for_status r \<and> status_code r \<noteq> 429"
  proof -
    fix a
    from nf obtain b where "get u a = Got (Response 404 b)" by blast
    then show "\<exists>r. get u a = Got r \<and> raises_for_status r \<and> status_code r \<noteq> 429"
      by (simp add: raises_for_status_def)
  qed
  from download_with_retries_all_errors [where get = get and u = u and rt = n, OF err n]
  obtain r where cnt: "fst (download_with_retries get n u) = nat n"
    and last: "get u (nat n - 1) = Got r"
    and res: "snd (download_with_retries get n u) = Inl (HTTPError r)"
    by blast
  from nf last have st: "status_code r = 404"
    by (metis get_result.inject(1) response.sel(1))
  have crawler: "session_get E = get \<and> retries E = n \<and> \<not> stop_is_set E 0 \<and>
       (browser_mode E \<longrightarrow> browser_page E u = None) \<longrightarrow>
         html_content (download_url E u) = None \<and> links (download_url E u) = None \<and>
         failed (download_url E u) \<noteq> None"
    using res by (auto simp: download_url_def regular_request_def fails_def)
  have scraper: "p_session_get P = get \<and> max_retries P = n \<and> \<not> p_stop_is_set P 0 \<and>
       \<not> p_stop_is_set P 1 \<and> (p_browser_mode P \<longrightarrow> p_browser_page P u = None) \<longrightarrow>
         download_page P u = Inr none_page"
    using res st by (auto simp: download_page_def page_request_def)
  from cnt crawler scraper show ?thesis by blast
qed

theorem not_found_is_retried_then_recorded_witness:
  "fst (download_with_retries always_404 3 ''http://x.com/p'') = 3 \<and>
   html_content (download_url (plain_env always_404 3) ''http://x.com/p'') = None \<and>
   links (download_url (plain_env always_404 3) ''http://x.com/p'') = None \<and>
   failed (download_url (plain_env always_404 3) ''http://x.com/p'') \<noteq> None \<and>
   download_page (plain_page_env always_404 3) ''http://x.com/p'' = Inr none_page"
proof -
  have nf: "\<forall>a. \<exists>b. always_404 ''http://x.com/p'' a = Got (Response 404 b)"
    by (simp add: always_404_def)
  have n: "(1::int) \<le> 3" by simp
  from not_found_is_retried_then_recorded [where get = always_404 and u = "''http://x.com/p''"
      and n = 3 and E = "plain_env always_404 3" and P = "plain_page_env always_404 3", OF nf n]
  show ?thesis by (simp add: plain_env_def plain_page_env_def)
qed

text \<open>
  The claim as the specification states it (one request for a 404, no retry) fails
  for the default \<^verbatim>\<open>retries = 3\<close>: three requests are made.
\<close>

theorem not_found_one_attempt_counterexample:
  "fst (download_with_retries always_404 3 ''http://x.com/p'') = 3 \<and>
   fst (download_with_retries always_404 3 ''http://x.com/p'') \<noteq> 1"
  by (simp add: download_with_retries_def always_404_def upt_rec raises_for_status_def
      one_more_def)

subsection \<open>The scheduler permutes the batch\<close>

lemma mset_complete_order: "mset (complete_order picks xs) = mset xs"
proof (induction picks xs rule: complete_order.induct)
  case (3 p picks x xs)
  let ?l = "x # xs"
  let ?i = "p mod length ?l"
  have i: "?i < length ?l" by simp
  have "mset ?l = mset (take ?i ?l @ ?l ! ?i # drop (Suc ?i) ?l)"
    using id_take_nth_drop [OF i] by simp
  with 3 show ?case by simp
qed simp_all

lemma set_complete_order: "set (complete_order picks xs) = set xs"
  using mset_complete_order [of picks xs] by (metis set_mset_mset)

lemma map_fst_submit: "map fst (submit dl k batch) = batch"
  by (simp add: submit_def enumerate_eq_zip map_fst_zip_take o_def case_prod_beta)

lemma set_fst_submit: "fst ` set (submit dl k batch) = set batch"
  using map_fst_submit [of dl k batch] by (metis set_map)

lemma scheduled_items:
  "fst ` set (complete_order picks (submit dl k batch)) = set batch"
  by (simp add: set_complete_order set_fst_submit)

subsection \<open>The frontier of the Crawler\<close>

lemma enqueue_links_fields [simp]:
  "visited (enqueue_links d ls s) = visited s"
  "fetched (enqueue_links d ls s) = fetched s"
  "pages_downloaded (enqueue_links d ls s) = pages_downloaded s"
  "failed_urls (enqueue_links d ls s) = failed_urls s"
  "stopping (enqueue_links d ls s) = stopping s"
  "finished (enqueue_links d ls s) = finished s"
  "polls (enqueue_links d ls s) = polls s"
  by (induction ls arbitrary: s; simp)+

lemma enqueue_links_inv: "frontier_inv s \<Longrightarrow> frontier_inv (enqueue_links d ls s)"
proof (induction ls arbitrary: s)
  case Nil
  then show ?case by simp
next
  case (Cons l ls)
  show ?case
  proof (cases "l \<notin> visited s \<and> l \<notin> queued s \<and>
      \<not> list_ex (\<lambda>item. fst item = l) (doc_queue s)")
    case True
    let ?s = "s\<lparr>doc_queue := doc_queue s @ [(l, d + 1)], queued := insert l (queued s)\<rparr>"
    from Cons.prems True have "frontier_inv ?s"
      by (auto simp: frontier_inv_def)
    from Cons.IH [OF this] True show ?thesis by simp
  next
    case False
    with Cons show ?thesis by auto
  qed
qed

lemma process_result_fields [simp]:
  "fetched (process_result E C item r s) = fetched s"
  "visited (process_result E C item r s) = insert (fst item) (visited s)"
  "finished (process_result E C item r s) = finished s"
  "stopping (process_result E C item r s) = stopping s"
  "polls (process_result E C item r s) = polls s"
  by (simp_all add: process_result_def Let_def split: option.splits)

lemma process_result_inv:
  assumes "frontier_inv s" and "fst item \<in> fst ` set (fetched s)"
  shows "frontier_inv (process_result E C item r s)"
proof -
  let ?s1 = "s\<lparr>visited := insert (fst item) (visited s),
                 failed_urls := (case failed r of None \<Rightarrow> failed_urls s
                                 | Some m \<Rightarrow> (failed_urls s)(fst item \<mapsto> m))\<rparr>"
  have s1: "frontier_inv ?s1"
    using assms by (auto simp: frontier_inv_def split: option.splits)
  then have s2: "frontier_inv (?s1\<lparr>pages_downloaded := k\<rparr>)" for k
    by (simp add: frontier_inv_def)
  then have s3: "frontier_inv (?s1\<lparr>pages_downloaded := k, doc_links := a, aux_links := b,
      external_links := c, asset_links := e\<rparr>)" for k a b c e
    by (simp add: frontier_inv_def)
  show ?thesis
    using s1 s2 s3
    by (auto simp: process_result_def Let_def split: option.splits intro!: enqueue_links_inv)
qed

lemma fold_process_result_fields [simp]:
  "fetched (fold (\<lambda>(item, r). process_result E C item r) fs s) = fetched s"
  "finished (fold (\<lambda>(item, r). process_result E C item r) fs s) = finished s"
  by (induction fs arbitrary: s; simp add: case_prod_beta)+

lemma fold_process_result_visited [simp]:
  "visited (fold (\<lambda>(item, r). process_result E C item r) fs s) =
     visited s \<union> fst ` fst ` set fs"
  by (induction fs arbitrary: s) (simp_all add: case_prod_beta)

lemma fold_process_result_inv:
  assumes "frontier_inv s" and "fst ` fst ` set fs \<subseteq> fst ` set (fetched s)"
  shows "frontier_inv (fold (\<lambda>(item, r). process_result E C item r) fs s)"
  using assms
proof (induction fs arbitrary: s)
  case Nil
  then show ?case by simp
next
  case (Cons f fs)
  obtain item r where f: "f = (item, r)" by (cases f)
  from Cons.prems f have "frontier_inv (process_result E C item r s)"
    by (intro process_result_inv) auto
  moreover from Cons.prems f
  have "fst ` fst ` set fs \<subseteq> fst ` set (fetched (process_result E C item r s))"
    by auto
  ultimately show ?case using Cons.IH f by simp
qed

lemma crawl_start_inv: "batch_inv (crawl_start C s)"
  by (simp add: batch_inv_def frontier_inv_def crawl_start_def)

lemma batch_taken_inv:
  assumes "frontier_inv s"
  shows "frontier_inv (s\<lparr>doc_queue := drop n (doc_queue s), polls := k,
           fetched := fetched s @ take n (doc_queue s)\<rparr>)"
proof -
  have "(fetched s @ take n (doc_queue s)) @ drop n (doc_queue s) = fetched s @ doc_queue s"
    by simp
  moreover have "fst ` set (fetched s) \<subseteq> fst ` set (fetched s @ take n (doc_queue s))"
    by auto
  ultimately show ?thesis
    using assms unfolding frontier_inv_def
    by (simp del: append_assoc append_take_drop_id map_append set_append) blast
qed

lemma crawl_iteration_inv:
  assumes "batch_inv s"
  shows "batch_inv (crawl_iteration E C s)"
proof -
  define n where "n = nat (min (concurrent_requests C) (int (length (doc_queue s))))"
  define fs where "fs = complete_order (completion E (length (fetched s)))
               (submit (download E) (length (fetched s)) (take n (doc_queue s)))"
  define s2 where "s2 = s\<lparr>doc_queue := drop n (doc_queue s), polls := Suc (polls s),
      fetched := fetched s @ take n (doc_queue s)\<rparr>"
  from assms have inv: "frontier_inv s" and vis: "visited s = fst ` set (fetched s)"
    by (simp_all add: batch_inv_def)
  have flags: "batch_inv (s\<lparr>finished := True\<rparr>)"
    "batch_inv (s\<lparr>stopping := True, finished := True, polls := Suc (polls s)\<rparr>)"
    using assms by (auto simp: batch_inv_def frontier_inv_def)
  have empty: "batch_inv (s\<lparr>doc_queue := drop n (doc_queue s), polls := Suc (polls s),
      finished := True\<rparr>)" if "take n (doc_queue s) = []"
  proof -
    from that have "drop n (doc_queue s) = doc_queue s"
      by (metis append_Nil append_take_drop_id)
    with assms show ?thesis by (auto simp: batch_inv_def frontier_inv_def)
  qed
  have s2: "frontier_inv s2"
    unfolding s2_def by (rule batch_taken_inv [OF inv])
  have items: "fst ` set fs = set (take n (doc_queue s))"
    unfolding fs_def by (rule scheduled_items)
  have fetched2: "fetched s2 = fetched s @ take n (doc_queue s)" and vis2: "visited s2 = visited s"
    by (simp_all add: s2_def)
  from items fetched2 have sub: "fst ` fst ` set fs \<subseteq> fst ` set (fetched s2)"
    by auto
  have "frontier_inv (fold (\<lambda>(item, r). process_result E C item r) fs s2)"
    by (rule fold_process_result_inv [OF s2 sub])
  moreover have "visited (fold (\<lambda>(item, r). process_result E C item r) fs s2) =
      fst ` set (fetched (fold (\<lambda>(item, r). process_result E C item r) fs s2))"
    using vis items fetched2 vis2 by (simp add: image_Un)
  ultimately have s3: "batch_inv (fold (\<lambda>(item, r). process_result E C item r) fs s2)"
    by (simp add: batch_inv_def)
  have step: "crawl_iteration E C s =
     (if finished s then s
      else if \<not> loop_guard C s then s\<lparr>finished := True\<rparr>
      else if stop_event E (polls s) then
        s\<lparr>stopping := True, finished := True, polls := Suc (polls s)\<rparr>
      else if take n (doc_queue s) = [] then
        s\<lparr>doc_queue := drop n (doc_queue s), polls := Suc (polls s), finished := True\<rparr>
      else fold (\<lambda>(item, r). process_result E C item r) fs s2)"
    by (simp add: crawl_iteration_def Let_def n_def fs_def s2_def)
  show ?thesis
    unfolding step using assms flags empty s3 by presburger
qed

lemma crawl_run_inv: "batch_inv (crawl_run E C s n)"
  by (induction n) (simp_all add: crawl_run_def crawl_start_inv crawl_iteration_inv)

subsection \<open>The depths of the frontier entries of the Crawler\<close>






subsection \<open>The frontier of the scraper\<close>

lemma s_enqueue_links_fields [simp]:
  "s_visited (s_enqueue_links C d ls s) = s_visited s"
  "s_fetched (s_enqueue_links C d ls s) = s_fetched s"
  "s_stopping (s_enqueue_links C d ls s) = s_stopping s"
  "status (s_enqueue_links C d ls s) = status s"
  "s_polls (s_enqueue_links C d ls s) = s_polls s"
  by (induction ls arbitrary: s; simp)+

lemma s_enqueue_links_inv:
  "s_frontier_inv s \<Longrightarrow> s_frontier_inv (s_enqueue_links C d ls s)"
proof (induction ls arbitrary: s)
  case Nil
  then show ?case by simp
next
  case (Cons l ls)
  show ?case
  proof (cases "l \<notin> s_visited s \<and> l \<notin> s_queued s \<and> is_valid_doc_url C l \<and>
      \<not> list_ex (\<lambda>item. fst item = l) (queue s)")
    case True
    let ?s = "s\<lparr>queue := queue s @ [(l, d + 1)], s_queued := insert l (s_queued s)\<rparr>"
    from Cons.prems True have "s_frontier_inv ?s"
      by (auto simp: s_frontier_inv_def)
    from Cons.IH [OF this] True show ?thesis by simp
  next
    case False
    with Cons show ?thesis by auto
  qed
qed


lemma land_effects_fields [simp]:
  "s_visited (land_effects rs s) = s_visited s"
  "s_fetched (land_effects rs s) = s_fetched s"
  "queue (land_effects rs s) = queue s"
  "s_stopping (land_effects rs s) = s_stopping s"
  "status (land_effects rs s) = status s"
  "s_polls (land_effects rs s) = s_polls s"
  "links_var (land_effects rs s) = links_var s"
  by (induction rs arbitrary: s; simp)+

lemma land_effects_queued: "s_queued s \<subseteq> s_queued (land_effects rs s)"
proof (induction rs arbitrary: s)
  case Nil
  then show ?case by simp
next
  case (Cons r rs)
  let ?s = "s\<lparr>s_queued := s_queued s \<union> set (asset_urls r),
      s_assets_downloaded := s_assets_downloaded s + int (assets_saved r)\<rparr>"
  have "s_queued s \<subseteq> s_queued ?s"
    by simp
  also have "\<dots> \<subseteq> s_queued (land_effects rs ?s)"
    by (rule Cons.IH)
  finally show ?case by simp
qed

lemma land_effects_inv: "s_frontier_inv s \<Longrightarrow> s_frontier_inv (land_effects rs s)"
  using land_effects_queued [of s rs] by (simp add: s_frontier_inv_def) blast


lemma s_process_result_fields [simp]:
  "s_fetched (s_process_result E C item r s) = s_fetched s"
  "s_visited (s_process_result E C item r s) = insert (fst item) (s_visited s)"
  "s_stopping (s_process_result E C item r s) = s_stopping s"
  "s_polls (s_process_result E C item r s) = s_polls s"
  by (simp_all add: s_process_result_def Let_def split: option.splits sum.splits)

lemma s_process_result_inv:
  assumes "s_frontier_inv s" and "fst item \<in> fst ` set (s_fetched s)"
  shows "s_frontier_inv (s_process_result E C item r s)"
proof -
  have same: "s_frontier_inv s'"
    if "s_fetched s' = s_fetched s" "queue s' = queue s" "s_queued s' = s_queued s"
       "s_visited s' = insert (fst item) (s_visited s)" for s'
    using that assms by (auto simp: s_frontier_inv_def)
  have enq: "s_frontier_inv (s_enqueue_links C d ls s')"
    if "s_fetched s' = s_fetched s" "queue s' = queue s" "s_queued s' = s_queued s"
       "s_visited s' = insert (fst item) (s_visited s)" for s' d ls
    by (rule s_enqueue_links_inv [OF same [OF that]])
  show ?thesis
    unfolding s_process_result_def Let_def
    by (simp split: option.splits sum.splits add: same enq)
qed


text \<open>
  A batch of the scraper: the invariants are kept; and unless the stop event was
  seen or the loop raised, every URL of the batch is marked as visited.
\<close>

lemma s_process_batch_fetched [simp]:
  "s_fetched (s_process_batch E C fs s) = s_fetched s"
  by (induction fs arbitrary: s) (simp_all add: Let_def)

lemma s_process_batch_inv:
  assumes "s_frontier_inv s" and "fst ` fst ` set fs \<subseteq> fst ` set (s_fetched s)"
  shows "s_frontier_inv (s_process_batch E C fs s)"
  using assms
proof (induction fs arbitrary: s)
  case Nil
  then show ?case by simp
next
  case (Cons f fs)
  define s0 where "s0 = land_effects [snd f] s"
  define s1 where "s1 = s_process_result E C (fst f) (snd f) (s0\<lparr>s_polls := Suc (s_polls s0)\<rparr>)"
  have inv0: "s_frontier_inv s0"
    unfolding s0_def by (rule land_effects_inv [OF Cons.prems(1)])
  then have stop: "s_frontier_inv (land_effects (map snd fs)
      (s0\<lparr>s_stopping := True, queue := [], s_polls := Suc (s_polls s0)\<rparr>))"
    by (intro land_effects_inv) (auto simp: s_frontier_inv_def)
  from inv0 have "s_frontier_inv (s0\<lparr>s_polls := Suc (s_polls s0)\<rparr>)"
    by (simp add: s_frontier_inv_def)
  moreover from Cons.prems(2) have "fst (fst f) \<in> fst ` set (s_fetched (s0\<lparr>s_polls := Suc (s_polls s0)\<rparr>))"
    by (simp add: s0_def)
  ultimately have inv1: "s_frontier_inv s1"
    unfolding s1_def by (rule s_process_result_inv)
  then have raised: "s_frontier_inv (land_effects (map snd fs) s1)"
    by (rule land_effects_inv)
  from Cons.prems(2) have "fst ` fst ` set fs \<subseteq> fst ` set (s_fetched s1)"
    by (simp add: s1_def s0_def)
  with inv1 have rest: "s_frontier_inv (s_process_batch E C fs s1)"
    by (rule Cons.IH)
  have step: "s_process_batch E C (f # fs) s =
      (if s_stop_event E (s_polls s0) then
        land_effects (map snd fs)
          (s0\<lparr>s_stopping := True, queue := [], s_polls := Suc (s_polls s0)\<rparr>)
       else if status s1 \<noteq> Running then land_effects (map snd fs) s1
       else s_process_batch E C fs s1)"
    by (simp add: Let_def s0_def s1_def)
  show ?case
    unfolding step using stop raised rest by presburger
qed


lemma s_process_batch_visited:
  assumes "status (s_process_batch E C fs s) = Running"
    and "\<not> s_stopping (s_process_batch E C fs s)"
  shows "s_visited (s_process_batch E C fs s) = s_visited s \<union> fst ` fst ` set fs"
  using assms
proof (induction fs arbitrary: s)
  case Nil
  then show ?case by simp
next
  case (Cons f fs)
  define s0 where "s0 = land_effects [snd f] s"
  define s1 where "s1 = s_process_result E C (fst f) (snd f) (s0\<lparr>s_polls := Suc (s_polls s0)\<rparr>)"
  have step: "s_process_batch E C (f # fs) s =
      (if s_stop_event E (s_polls s0) then
        land_effects (map snd fs)
          (s0\<lparr>s_stopping := True, queue := [], s_polls := Suc (s_polls s0)\<rparr>)
       else if status s1 \<noteq> Running then land_effects (map snd fs) s1
       else s_process_batch E C fs s1)"
    by (simp add: Let_def s0_def s1_def)
  have nostop: "\<not> s_stop_event E (s_polls s0)"
  proof
    assume "s_stop_event E (s_polls s0)"
    with step have "s_stopping (s_process_batch E C (f # fs) s)" by simp
    with Cons.prems(2) show False by simp
  qed
  have run1: "status s1 = Running"
  proof (rule ccontr)
    assume "status s1 \<noteq> Running"
    with step nostop have "status (s_process_batch E C (f # fs) s) = status s1" by simp
    with Cons.prems(1) \<open>status s1 \<noteq> Running\<close> show False by simp
  qed
  from step nostop run1 have eq: "s_process_batch E C (f # fs) s = s_process_batch E C fs s1"
    by simp
  with Cons.prems have "s_visited (s_process_batch E C fs s1) = s_visited s1 \<union> fst ` fst ` set fs"
    by (intro Cons.IH) simp_all
  moreover have "s_visited s1 = insert (fst (fst f)) (s_visited s)"
    by (simp add: s1_def s0_def)
  ultimately show ?case using eq by auto
qed

lemma s_crawl_start_inv:
  "distinct start_urls \<Longrightarrow> s_batch_inv (s_crawl_start C start_urls s)"
  by (auto simp: s_batch_inv_def s_frontier_inv_def s_crawl_start_def Let_def distinct_map
      o_def inj_on_def)

lemma s_crawl_iteration_step:
  "s_crawl_iteration E C s =
     (let n = nat (min (s_concurrent_requests C) (int (length (queue s))));
          s2 = s_process_batch E C
                 (complete_order (s_completion E (length (s_fetched s)))
                    (submit (page_download E) (length (s_fetched s)) (take n (queue s))))
                 (s\<lparr>queue := drop n (queue s), s_polls := Suc (s_polls s),
                    s_fetched := s_fetched s @ take n (queue s)\<rparr>)
      in if status s \<noteq> Running then s
         else if \<not> s_loop_guard C s then s\<lparr>status := Finished\<rparr>
         else if s_stop_event E (s_polls s) then
           s\<lparr>s_stopping := True, queue := [], s_polls := Suc (s_polls s), status := Finished\<rparr>
         else if take n (queue s) = [] then
           s\<lparr>queue := drop n (queue s), s_polls := Suc (s_polls s), status := Finished\<rparr>
         else if status s2 \<noteq> Running then s2
         else if s_stop_event E (s_polls s2) then
           s2\<lparr>s_stopping := True, queue := [], s_polls := Suc (s_polls s2), status := Finished\<rparr>
         else s2\<lparr>s_polls := Suc (s_polls s2)\<rparr>)"
  by (simp add: s_crawl_iteration_def Let_def)

lemma s_batch_taken_inv:
  assumes "s_frontier_inv s"
  shows "s_frontier_inv (s\<lparr>queue := drop n (queue s), s_polls := k,
           s_fetched := s_fetched s @ take n (queue s)\<rparr>)"
proof -
  have "(s_fetched s @ take n (queue s)) @ drop n (queue s) = s_fetched s @ queue s"
    by simp
  moreover have "fst ` set (s_fetched s) \<subseteq> fst ` set (s_fetched s @ take n (queue s))"
    by auto
  ultimately show ?thesis
    using assms unfolding s_frontier_inv_def
    by (simp del: append_assoc append_take_drop_id map_append set_append) blast
qed

lemma s_crawl_iteration_inv:
  assumes "s_batch_inv s"
  shows "s_batch_inv (s_crawl_iteration E C s)"
proof -
  define n where "n = nat (min (s_concurrent_requests C) (int (length (queue s))))"
  define fs where "fs = complete_order (s_completion E (length (s_fetched s)))
                    (submit (page_download E) (length (s_fetched s)) (take n (queue s)))"
  define s1 where "s1 = s\<lparr>queue := drop n (queue s), s_polls := Suc (s_polls s),
                    s_fetched := s_fetched s @ take n (queue s)\<rparr>"
  define s2 where "s2 = s_process_batch E C fs s1"
  from assms have inv: "s_frontier_inv s"
    and vis: "s_stopping s \<or> (\<exists>e. status s = Raised e) \<or> s_visited s = fst ` set (s_fetched s)"
    by (simp_all add: s_batch_inv_def)
  have flags: "s_batch_inv (s\<lparr>status := Finished\<rparr>)" if "status s = Running"
    using that assms by (simp add: s_batch_inv_def s_frontier_inv_def)
  have stop: "s_batch_inv (s\<lparr>s_stopping := True, queue := [], s_polls := Suc (s_polls s),
      status := Finished\<rparr>)"
    using inv by (auto simp: s_batch_inv_def s_frontier_inv_def)
  have empty: "s_batch_inv (s\<lparr>queue := drop n (queue s), s_polls := Suc (s_polls s),
      status := Finished\<rparr>)" if "take n (queue s) = []" "status s = Running"
  proof -
    from that have "drop n (queue s) = queue s"
      by (metis append_Nil append_take_drop_id)
    with that assms show ?thesis by (simp add: s_batch_inv_def s_frontier_inv_def)
  qed
  have inv1: "s_frontier_inv s1"
    unfolding s1_def by (rule s_batch_taken_inv [OF inv])
  have items: "fst ` set fs = set (take n (queue s))"
    unfolding fs_def by (rule scheduled_items)
  have fetched1: "s_fetched s1 = s_fetched s @ take n (queue s)"
    and vis1: "s_visited s1 = s_visited s"
    by (simp_all add: s1_def)
  from items fetched1 have sub: "fst ` fst ` set fs \<subseteq> fst ` set (s_fetched s1)"
    by auto
  have inv2: "s_frontier_inv s2"
    unfolding s2_def by (rule s_process_batch_inv [OF inv1 sub])
  have vis2: "s_visited s2 = fst ` set (s_fetched s2)"
    if "status s2 = Running" "\<not> s_stopping s2" "status s = Running" "\<not> s_stopping s"
  proof -
    from that vis have "s_visited s = fst ` set (s_fetched s)" by auto
    moreover have "s_visited s2 = s_visited s1 \<union> fst ` fst ` set fs"
      unfolding s2_def using that(1,2) by (intro s_process_batch_visited) (simp_all add: s2_def)
    ultimately show ?thesis
      using items fetched1 vis1 by (simp add: s2_def image_Un)
  qed
  have raised: "s_batch_inv s2" if "status s2 \<noteq> Running" "status s = Running" "\<not> s_stopping s"
  proof (cases "status s2")
    case Running
    with that show ?thesis by simp
  next
    case Finished
    have "status s2 \<noteq> Finished"
    proof -
      have "status (s_process_batch E C gs t) \<noteq> Finished" if "status t \<noteq> Finished" for gs t
        using that
      proof (induction gs arbitrary: t)
        case Nil
        then show ?case by simp
      next
        case (Cons g gs)
        have "status (s_process_result E C (fst g) (snd g) t') \<noteq> Finished"
          if "status t' \<noteq> Finished" for t'
          using that
          by (simp add: s_process_result_def Let_def split: option.splits sum.splits)
        with Cons show ?case
          by (simp add: Let_def)
      qed
      then show ?thesis
        using \<open>status s = Running\<close> by (simp add: s2_def s1_def)
    qed
    with Finished show ?thesis by simp
  next
    case (Raised e)
    with inv2 show ?thesis by (simp add: s_batch_inv_def)
  qed
  have stop2: "s_batch_inv (s2\<lparr>s_stopping := True, queue := [], s_polls := Suc (s_polls s2),
      status := Finished\<rparr>)"
    using inv2 by (auto simp: s_batch_inv_def s_frontier_inv_def)
  have cont: "s_batch_inv (s2\<lparr>s_polls := Suc (s_polls s2)\<rparr>)"
    if "status s2 = Running" "status s = Running" "\<not> s_stopping s"
  proof (cases "s_stopping s2")
    case True
    with inv2 show ?thesis by (auto simp: s_batch_inv_def s_frontier_inv_def)
  next
    case False
    with vis2 that have "s_visited s2 = fst ` set (s_fetched s2)" by simp
    with inv2 show ?thesis by (auto simp: s_batch_inv_def s_frontier_inv_def)
  qed
  have guard: "\<not> s_stopping s" if "s_loop_guard C s"
    using that by (simp add: s_loop_guard_def)
  have step: "s_crawl_iteration E C s =
     (if status s \<noteq> Running then s
      else if \<not> s_loop_guard C s then s\<lparr>status := Finished\<rparr>
      else if s_stop_event E (s_polls s) then
        s\<lparr>s_stopping := True, queue := [], s_polls := Suc (s_polls s), status := Finished\<rparr>
      else if take n (queue s) = [] then
        s\<lparr>queue := drop n (queue s), s_polls := Suc (s_polls s), status := Finished\<rparr>
      else if status s2 \<noteq> Running then s2
      else if s_stop_event E (s_polls s2) then
        s2\<lparr>s_stopping := True, queue := [], s_polls := Suc (s_polls s2), status := Finished\<rparr>
      else s2\<lparr>s_polls := Suc (s_polls s2)\<rparr>)"
    unfolding s_crawl_iteration_step by (simp add: Let_def n_def fs_def s1_def s2_def)
  show ?thesis
    unfolding step using assms flags stop empty raised stop2 cont guard by presburger
qed

lemma s_crawl_run_inv:
  "distinct start_urls \<Longrightarrow> s_batch_inv (s_crawl_run E C start_urls s n)"
  by (induction n) (simp_all add: s_crawl_run_def s_crawl_start_inv s_crawl_iteration_inv)



subsection \<open>Evaluating the example runs\<close>

lemma valid_docs: "is_valid_doc_url docs_scraper ''https://x.com/docs''"
  by code_simp

lemma valid_docs_b: "is_valid_doc_url docs_scraper ''https://x.com/docs/b''"
  by code_simp

lemma docs_scraper_fields [simp]:
  "s_base_url docs_scraper = ''https://x.com/docs''"
  "s_max_depth docs_scraper = 3"
  "s_max_pages docs_scraper = None"
  "s_concurrent_requests docs_scraper = 5"
  by (simp_all add: docs_scraper_def)

lemmas crawl_eval =
  crawl_run_def crawl_start_def crawl_iteration_def loop_guard_def process_result_def
  submit_def enumerate_eq_zip upt_rec Let_def returns_def

lemmas s_crawl_eval =
  s_crawl_run_def s_crawl_start_def s_crawl_iteration_def s_loop_guard_def
  s_process_result_def submit_def enumerate_eq_zip upt_rec Let_def truthy_def
  valid_docs valid_docs_b

subsection \<open>No duplicate fetches\<close>

text \<open>
  In \<^verbatim>\<open>Crawler.crawl\<close> no URL is handed to the downloader twice, and a visited URL is
  never in the queue: the guard of the loop over the links tests \<^verbatim>\<open>visited\<close>,
  \<^verbatim>\<open>queued\<close> and the queue, and the only seed is the base URL.
\<close>

lemma crawler_fetches_each_url_once:
  "distinct (map fst (fetched (crawl_run E C s n))) \<and>
   visited (crawl_run E C s n) \<inter> fst ` set (doc_queue (crawl_run E C s n)) = {}"
  using crawl_run_inv [of E C s n]
  by (auto simp: batch_inv_def frontier_inv_def)

text \<open>The same holds in the scraper when the start URLs are pairwise different.\<close>

lemma scraper_fetches_each_url_once:
  assumes "distinct start_urls"
  shows "distinct (map fst (s_fetched (s_crawl_run E C start_urls s n))) \<and>
   s_visited (s_crawl_run E C start_urls s n) \<inter>
     fst ` set (queue (s_crawl_run E C start_urls s n)) = {}"
  using s_crawl_run_inv [OF assms, of E C s n]
  by (auto simp: s_batch_inv_def s_frontier_inv_def)

text \<open>
  Claim C1, at the input where the code breaks it. The scraper's \<^verbatim>\<open>crawl\<close> appends
  every valid start URL to the queue without looking at \<^verbatim>\<open>visited\<close>, \<^verbatim>\<open>queued\<close> or the
  queue. Called with the same start URL twice it hands the URL to the downloader
  twice in one run.
\<close>

theorem duplicate_start_url_is_fetched_twice:
  "s_fetched (s_crawl_run (quiet docs_site) docs_scraper
      [''https://x.com/docs/b'', ''https://x.com/docs/b''] new_scraper 2) =
     [(''https://x.com/docs/b'', 0), (''https://x.com/docs/b'', 0)] \<and>
   status (s_crawl_run (quiet docs_site) docs_scraper
      [''https://x.com/docs/b'', ''https://x.com/docs/b''] new_scraper 2) = Finished"
  by (simp add: s_crawl_eval numeral_2_eq_2 quiet_def docs_site_def new_scraper_def
      del: set_filter)

subsection \<open>The page cap\<close>

text \<open>
  Claim C2, at the input where the code breaks it. The loop of \<^verbatim>\<open>Crawler.crawl\<close> tests
  \<^verbatim>\<open>pages_downloaded < max_pages\<close> between batches only. With \<^verbatim>\<open>max_pages = 2\<close> and
  five concurrent requests, the start page is the first batch and its three links are
  the second: after it the loop is left with four pages downloaded.
\<close>

theorem page_cap_is_exceeded_inside_a_batch:
  "max_pages capped = Some 2 \<and>
   finished (crawl_run steady capped new_crawler 3) \<and>
   pages_downloaded (crawl_run steady capped new_crawler 3) = 4"
  by (simp add: crawl_eval numeral_3_eq_3 capped_def steady_def new_crawler_def
      three_links_def)

subsection \<open>The depth bound\<close>







subsection \<open>The reset at the start of a crawl\<close>

text \<open>
  \<^verbatim>\<open>Crawler.crawl\<close> overwrites every field of the state before it fetches: a run does
  not depend on what an earlier run left behind.
\<close>

lemma crawler_crawl_is_fresh: "crawl_run E C s n = crawl_run E C s' n"
proof -
  have "crawl_start C s = crawl_start C s'"
    by (cases s; cases s') (simp add: crawl_start_def)
  then show ?thesis by (simp add: crawl_run_def)
qed

lemma second_scraper_crawl:
  assumes "s_queued t = {''https://x.com/docs'', ''https://x.com/docs/b''}"
  shows "s_visited (s_crawl_run (quiet docs_site) docs_scraper [] t 2) = {''https://x.com/docs''} \<and>
         status (s_crawl_run (quiet docs_site) docs_scraper [] t 2) = Finished"
  using assms
  by (simp add: s_crawl_eval numeral_2_eq_2 quiet_def docs_site_def del: set_filter)

lemma first_scraper_crawl:
  "s_visited (s_crawl_run (quiet docs_site) docs_scraper [] new_scraper 3) =
     {''https://x.com/docs'', ''https://x.com/docs/b''} \<and>
   s_queued (s_crawl_run (quiet docs_site) docs_scraper [] new_scraper 3) =
     {''https://x.com/docs'', ''https://x.com/docs/b''} \<and>
   status (s_crawl_run (quiet docs_site) docs_scraper [] new_scraper 3) = Finished"
  by (simp add: s_crawl_eval numeral_3_eq_3 quiet_def docs_site_def new_scraper_def
      insert_commute del: set_filter)

text \<open>
  Claim C8, at the input where the code breaks it. The scraper's \<^verbatim>\<open>crawl\<close> resets
  the counters, \<^verbatim>\<open>visited\<close> and \<^verbatim>\<open>failed_urls\<close>, but only adds to \<^verbatim>\<open>queued\<close>. The first
  crawl of the example site visits the start page and the page it links to. A second
  crawl on the same object finds that link in \<^verbatim>\<open>queued\<close>, does not enqueue it, and
  finishes after the start page alone.
\<close>

theorem second_crawl_is_not_fresh:
  "s_visited (s_crawl_run (quiet docs_site) docs_scraper [] new_scraper 3) =
     {''https://x.com/docs'', ''https://x.com/docs/b''} \<and>
   status (s_crawl_run (quiet docs_site) docs_scraper [] new_scraper 3) = Finished \<and>
   s_visited (s_crawl_run (quiet docs_site) docs_scraper []
     (s_crawl_run (quiet docs_site) docs_scraper [] new_scraper 3) 2) = {''https://x.com/docs''} \<and>
   status (s_crawl_run (quiet docs_site) docs_scraper []
     (s_crawl_run (quiet docs_site) docs_scraper [] new_scraper 3) 2) = Finished"
  using first_scraper_crawl
    second_scraper_crawl [of "s_crawl_run (quiet docs_site) docs_scraper [] new_scraper 3"]
  by blast

subsection \<open>Dispatched URLs and the visited set\<close>

text \<open>
  Claim C10, as the code has it. In \<^verbatim>\<open>Crawler.crawl\<close> every URL handed to the downloader
  is in \<^verbatim>\<open>visited\<close> when the pass through the loop is over, whatever its download did,
  every URL with an entry in \<^verbatim>\<open>failed_urls\<close> is visited, and no URL is handed to the
  downloader twice. In the scraper, when the start URLs are pairwise different, no
  URL is handed to the downloader twice either, and the dispatched URLs are the
  visited ones unless the stop event was seen or the loop raised an exception.
\<close>

theorem dispatched_urls_are_visited:
  "visited (crawl_run E C s n) = fst ` set (fetched (crawl_run E C s n)) \<and>
   distinct (map fst (fetched (crawl_run E C s n))) \<and>
   dom (failed_urls (crawl_run E C s n)) \<subseteq> visited (crawl_run E C s n) \<and>
   (distinct start_urls \<longrightarrow>
      distinct (map fst (s_fetched (s_crawl_run F S start_urls t n))) \<and>
      (s_stopping (s_crawl_run F S start_urls t n) \<or>
       (\<exists>e. status (s_crawl_run F S start_urls t n) = Raised e) \<or>
       s_visited (s_crawl_run F S start_urls t n) =
         fst ` set (s_fetched (s_crawl_run F S start_urls t n))))"
proof -
  have crawler: "visited (crawl_run E C s n) = fst ` set (fetched (crawl_run E C s n)) \<and>
     distinct (map fst (fetched (crawl_run E C s n))) \<and>
     dom (failed_urls (crawl_run E C s n)) \<subseteq> visited (crawl_run E C s n)"
    using crawl_run_inv [of E C s n] by (auto simp: batch_inv_def frontier_inv_def)
  have scraper: "distinct (map fst (s_fetched (s_crawl_run F S start_urls t n))) \<and>
      (s_stopping (s_crawl_run F S start_urls t n) \<or>
       (\<exists>e. status (s_crawl_run F S start_urls t n) = Raised e) \<or>
       s_visited (s_crawl_run F S start_urls t n) =
         fst ` set (s_fetched (s_crawl_run F S start_urls t n)))"
    if "distinct start_urls"
    using s_crawl_run_inv [OF that, of F S t n]
    by (auto simp: s_batch_inv_def s_frontier_inv_def)
  from crawler scraper show ?thesis by blast
qed

theorem dispatched_urls_are_visited_witness:
  "visited (crawl_run steady capped new_crawler 3) =
     fst ` set (fetched (crawl_run steady capped new_crawler 3)) \<and>
   distinct (map fst (fetched (crawl_run steady capped new_crawler 3))) \<and>
   dom (failed_urls (crawl_run steady capped new_crawler 3)) \<subseteq>
     visited (crawl_run steady capped new_crawler 3) \<and>
   distinct [''https://x.com/docs''] \<and>
   distinct (map fst (s_fetched
     (s_crawl_run (quiet docs_site) docs_scraper [''https://x.com/docs''] new_scraper 3))) \<and>
   s_visited (s_crawl_run (quiet docs_site) docs_scraper [''https://x.com/docs''] new_scraper 3) =
     fst ` set (s_fetched
       (s_crawl_run (quiet docs_site) docs_scraper [''https://x.com/docs''] new_scraper 3))"
proof -
  have d: "distinct [''https://x.com/docs'']" by simp
  have r: "\<not> s_stopping
      (s_crawl_run (quiet docs_site) docs_scraper [''https://x.com/docs''] new_scraper 3)"
    "status (s_crawl_run (quiet docs_site) docs_scraper [''https://x.com/docs''] new_scraper 3) =
      Finished"
    by (simp_all add: s_crawl_eval numeral_3_eq_3 quiet_def docs_site_def new_scraper_def
        del: set_filter)
  from r(2) have nr: "\<not> (\<exists>e. status
      (s_crawl_run (quiet docs_site) docs_scraper [''https://x.com/docs''] new_scraper 3) =
      Raised e)"
    by simp
  from dispatched_urls_are_visited [of steady capped new_crawler 3 "[''https://x.com/docs'']"
      "quiet docs_site" docs_scraper new_scraper] d r(1) nr
  show ?thesis by blast
qed

text \<open>
  The claim as stated fails in the scraper: when the stop event is found set by the
  test that precedes the first completed future, the loop is left before
  \<^verbatim>\<open>self.visited.add(url)\<close>; the start page has been downloaded and is not in
  \<^verbatim>\<open>visited\<close>.
\<close>

theorem stopped_batch_is_not_marked_visited:
  "s_fetched (s_crawl_run (stop_at 1 docs_site) docs_scraper [] new_scraper 1) =
     [(''https://x.com/docs'', 0)] \<and>
   s_visited (s_crawl_run (stop_at 1 docs_site) docs_scraper [] new_scraper 1) = {} \<and>
   s_stopping (s_crawl_run (stop_at 1 docs_site) docs_scraper [] new_scraper 1)"
  by (simp add: s_crawl_eval stop_at_def docs_site_def new_scraper_def del: set_filter)

subsection \<open>Query parameters\<close>





subsection \<open>Dropped links and fragments\<close>





subsection \<open>The default category\<close>




end
